theory Spec2Isabelle
  imports Main "HOL-Library.Sublist"
begin

section \<open>Values read from the data file\<close>

text \<open>
  \<open>load_from_file\<close> hands the result of \<open>json.load\<close> to the engine without any check, so
  a field of a raw record can hold any JSON value. JSON numbers written with a fraction or
  an exponent (Python floats) are not represented here.
\<close>

datatype json =
    JNull
  | JBool bool
  | JInt int
  | JStr string
  | JArr "json list"
  | JObj "(string \<times> json) list"

text \<open>The built-in exceptions the engine can raise.\<close>

datatype error = KeyError string | ValueError | TypeError | IndexError

text \<open>
  A key of a Python dictionary, up to Python's equality of keys: \<open>True\<close> and \<open>1\<close> are the
  same key, as are \<open>False\<close> and \<open>0\<close>. Lists and dictionaries cannot be hashed.
\<close>

datatype key = KNone | KInt int | KStr string

fun hash_key :: "json \<Rightarrow> error + key" where
  "hash_key JNull = Inr KNone"
| "hash_key (JBool b) = Inr (KInt (if b then 1 else 0))"
| "hash_key (JInt i) = Inr (KInt i)"
| "hash_key (JStr s) = Inr (KStr s)"
| "hash_key (JArr xs) = Inl TypeError"
| "hash_key (JObj kvs) = Inl TypeError"

text \<open>
  Python's \<open>int(x)\<close>. How a string is read as an integer (signs, blanks, underscores, digits
  of other scripts) is left to the parameter \<open>P\<close>, which answers \<open>None\<close> where \<open>int\<close>
  raises \<open>ValueError\<close>.
\<close>

fun py_int :: "(string \<Rightarrow> int option) \<Rightarrow> json \<Rightarrow> error + int" where
  "py_int P (JInt i) = Inr i"
| "py_int P (JBool b) = Inr (if b then 1 else 0)"
| "py_int P (JStr s) = (case P s of None \<Rightarrow> Inl ValueError | Some i \<Rightarrow> Inr i)"
| "py_int P JNull = Inl TypeError"
| "py_int P (JArr xs) = Inl TypeError"
| "py_int P (JObj kvs) = Inl TypeError"

section \<open>Apartment and ApartmentDatabase\<close>

text \<open>
  \<open>Apartment\<close> keeps its five constructor arguments in a tuple. The four numeric ones went
  through \<open>int\<close>; \<open>metro\<close> is stored as it was read.
\<close>

record apartment =
  total_area :: int
  rooms :: int
  kitchen_area :: int
  balconies :: int
  metro :: json

text \<open>
  \<open>_apartments\<close> is the list of records, \<open>_indices\<close> the dictionary from index name to
  inverted index; an inverted index maps an attribute value to the set of positions of
  the records holding it.
\<close>

record apartment_database =
  apartments :: "apartment list"
  indices :: "string \<rightharpoonup> (key \<rightharpoonup> nat set)"

definition attribute_names :: "string list" where
  "attribute_names = [''total_area'', ''rooms'', ''kitchen_area'', ''balconies'', ''metro'']"

definition init_db :: apartment_database where
  "init_db = \<lparr>apartments = [],
     indices = [''total_area'' \<mapsto> Map.empty, ''rooms'' \<mapsto> Map.empty,
                ''kitchen_area'' \<mapsto> Map.empty, ''balconies'' \<mapsto> Map.empty,
                ''metro'' \<mapsto> Map.empty]\<rparr>"

definition clear_indices :: "apartment_database \<Rightarrow> apartment_database" where
  "clear_indices db =
     db\<lparr>indices := (\<lambda>name. case indices db name of None \<Rightarrow> None | Some index \<Rightarrow> Some Map.empty)\<rparr>"

text \<open>
  A method that raises leaves the object as far as it got, so each mutating method returns
  the database together with the exception, if any.
\<close>

definition add_to_index ::
  "apartment_database \<Rightarrow> string \<Rightarrow> json \<Rightarrow> nat \<Rightarrow> apartment_database \<times> error option" where
  "add_to_index db index_name k apartment_index =
     (case indices db index_name of
        None \<Rightarrow> (db, Some (KeyError index_name))
      | Some index \<Rightarrow>
          (case hash_key k of
             Inl e \<Rightarrow> (db, Some e)
           | Inr hk \<Rightarrow>
               (let index1 = (if index hk = None then index(hk \<mapsto> {}) else index);
                    bucket = (case index1 hk of None \<Rightarrow> {} | Some s \<Rightarrow> s)
                in (db\<lparr>indices := (indices db)(index_name \<mapsto>
                          index1(hk \<mapsto> insert apartment_index bucket))\<rparr>, None))))"

definition and_then ::
  "apartment_database \<times> error option \<Rightarrow> (apartment_database \<Rightarrow> apartment_database \<times> error option)
     \<Rightarrow> apartment_database \<times> error option" where
  "and_then r f = (case r of (db, None) \<Rightarrow> f db | (db, Some e) \<Rightarrow> (db, Some e))"

definition add_apartment ::
  "apartment_database \<Rightarrow> apartment \<Rightarrow> apartment_database \<times> error option" where
  "add_apartment db apt =
     (let apartment_index = length (apartments db);
          db1 = db\<lparr>apartments := apartments db @ [apt]\<rparr>
      in and_then (add_to_index db1 ''total_area'' (JInt (total_area apt)) apartment_index) (\<lambda>db2.
         and_then (add_to_index db2 ''rooms'' (JInt (rooms apt)) apartment_index) (\<lambda>db3.
         and_then (add_to_index db3 ''kitchen_area'' (JInt (kitchen_area apt)) apartment_index) (\<lambda>db4.
         and_then (add_to_index db4 ''balconies'' (JInt (balconies apt)) apartment_index) (\<lambda>db5.
         add_to_index db5 ''metro'' (metro apt) apartment_index)))))"

text \<open>A raw record is the dictionary \<open>apt_data\<close>; \<open>apt_data[k]\<close> raises \<open>KeyError\<close> on a missing key.\<close>

definition subscript :: "(string \<rightharpoonup> json) \<Rightarrow> string \<Rightarrow> error + json" where
  "subscript apt_data k = (case apt_data k of None \<Rightarrow> Inl (KeyError k) | Some v \<Rightarrow> Inr v)"

definition int_field :: "(string \<Rightarrow> int option) \<Rightarrow> (string \<rightharpoonup> json) \<Rightarrow> string \<Rightarrow> error + int" where
  "int_field P apt_data k = (case subscript apt_data k of Inl e \<Rightarrow> Inl e | Inr v \<Rightarrow> py_int P v)"

text \<open>The constructor call of the loop body: the arguments are evaluated from left to right.\<close>

definition make_apartment :: "(string \<Rightarrow> int option) \<Rightarrow> (string \<rightharpoonup> json) \<Rightarrow> error + apartment" where
  "make_apartment P apt_data =
     (case int_field P apt_data ''total_area'' of Inl e \<Rightarrow> Inl e | Inr ta \<Rightarrow>
     (case int_field P apt_data ''rooms'' of Inl e \<Rightarrow> Inl e | Inr r \<Rightarrow>
     (case int_field P apt_data ''kitchen_area'' of Inl e \<Rightarrow> Inl e | Inr ka \<Rightarrow>
     (case int_field P apt_data ''balconies'' of Inl e \<Rightarrow> Inl e | Inr b \<Rightarrow>
     (case subscript apt_data ''metro'' of Inl e \<Rightarrow> Inl e | Inr m \<Rightarrow>
        Inr \<lparr>total_area = ta, rooms = r, kitchen_area = ka, balconies = b, metro = m\<rparr>)))))"

fun load_loop ::
  "(string \<Rightarrow> int option) \<Rightarrow> apartment_database \<Rightarrow> (string \<rightharpoonup> json) list
     \<Rightarrow> apartment_database \<times> error option" where
  "load_loop P db [] = (db, None)"
| "load_loop P db (apt_data # rest) =
     (case make_apartment P apt_data of
        Inl e \<Rightarrow> (db, Some e)
      | Inr apt \<Rightarrow> and_then (add_apartment db apt) (\<lambda>db1. load_loop P db1 rest))"

text \<open>
  \<open>load_from_file\<close> after the file has been read: \<open>data\<close> is the list of raw records. The
  store and the indices are cleared before the first record is looked at.
\<close>

definition load_from_file ::
  "(string \<Rightarrow> int option) \<Rightarrow> apartment_database \<Rightarrow> (string \<rightharpoonup> json) list
     \<Rightarrow> apartment_database \<times> error option" where
  "load_from_file P db data = load_loop P (clear_indices (db\<lparr>apartments := []\<rparr>)) data"

definition get_index_for_field :: "apartment_database \<Rightarrow> string \<Rightarrow> (key \<rightharpoonup> nat set) option" where
  "get_index_for_field db field = indices db field"

text \<open>
  The loop of \<open>search\<close> over \<open>criteria.items()\<close>, the pairs of the dictionary in insertion
  order (the keys of a dictionary are pairwise distinct); \<open>result_indices\<close> starts as
  \<open>None\<close>. A criterion compares by equality of dictionary keys, so its right-hand side is a
  \<open>key\<close>. Any operator other than the string \<open>AND\<close> unions.
\<close>

fun search_loop ::
  "apartment_database \<Rightarrow> string \<Rightarrow> (string \<times> key) list \<Rightarrow> nat set option \<Rightarrow> nat set option" where
  "search_loop db operator [] result_indices = result_indices"
| "search_loop db operator ((field, v) # rest) result_indices =
     (case get_index_for_field db field of
        None \<Rightarrow> search_loop db operator rest result_indices
      | Some index \<Rightarrow>
          (let current_indices = (case index v of None \<Rightarrow> {} | Some s \<Rightarrow> s)
           in case result_indices of
                None \<Rightarrow> search_loop db operator rest (Some current_indices)
              | Some r \<Rightarrow>
                  if operator = ''AND''
                  then search_loop db operator rest (Some (r \<inter> current_indices))
                  else search_loop db operator rest (Some (r \<union> current_indices))))"

text \<open>\<open>[self._apartments[i] for i in ...]\<close>: a position past the end raises \<open>IndexError\<close>.\<close>

fun get_all :: "'a list \<Rightarrow> nat list \<Rightarrow> error + 'a list" where
  "get_all xs [] = Inr []"
| "get_all xs (i # rest) =
     (if i < length xs
      then (case get_all xs rest of Inl e \<Rightarrow> Inl e | Inr ys \<Rightarrow> Inr (xs ! i # ys))
      else Inl IndexError)"

definition search ::
  "apartment_database \<Rightarrow> (string \<times> key) list \<Rightarrow> string \<Rightarrow> error + apartment list" where
  "search db criteria operator =
     (if criteria = [] then Inr []
      else case search_loop db operator criteria None of
             None \<Rightarrow> Inr []
           | Some result_indices \<Rightarrow>
               if result_indices = {} then Inr []
               else get_all (apartments db) (sorted_list_of_set result_indices))"

section \<open>The sets of search as objects\<close>

text \<open>
  A Python set is an object, and \<open>&=\<close> and \<open>|=\<close> change the object on their left in place.
  Whether a query can change a bucket therefore depends on which object \<open>result_indices\<close>
  refers to. In this second model of \<open>search\<close> an index maps an attribute value to the
  address of its bucket, and \<open>h_sets\<close> holds the set objects: the object at address \<open>a\<close> is
  \<open>h_sets ! a\<close>. \<open>set()\<close> and \<open>copy()\<close> create a new object at the next free address. The
  dictionaries and the record list are only read by \<open>search\<close>.
\<close>

record heap_database =
  h_apartments :: "apartment list"
  h_indices :: "string \<rightharpoonup> (key \<rightharpoonup> nat)"
  h_sets :: "nat set list"

definition new_set :: "nat set list \<Rightarrow> nat set \<Rightarrow> nat \<times> nat set list" where
  "new_set st s = (length st, st @ [s])"

text \<open>
  In \<open>index.get(value, set())\<close> the default argument is built before \<open>get\<close> is called, so
  an empty set is created for every recognized criterion.
\<close>

fun search_loop_h ::
  "(string \<rightharpoonup> (key \<rightharpoonup> nat)) \<Rightarrow> string \<Rightarrow> (string \<times> key) list \<Rightarrow> nat option \<Rightarrow> nat set list
     \<Rightarrow> nat option \<times> nat set list" where
  "search_loop_h ix operator [] result_indices st = (result_indices, st)"
| "search_loop_h ix operator ((field, v) # rest) result_indices st =
     (case ix field of
        None \<Rightarrow> search_loop_h ix operator rest result_indices st
      | Some index \<Rightarrow>
          (case new_set st {} of (dflt, st1) \<Rightarrow>
             (let current_indices = (case index v of None \<Rightarrow> dflt | Some a \<Rightarrow> a)
              in case result_indices of
                   None \<Rightarrow>
                     (case new_set st1 (st1 ! current_indices) of (r, st2) \<Rightarrow>
                        search_loop_h ix operator rest (Some r) st2)
                 | Some r \<Rightarrow>
                     if operator = ''AND''
                     then search_loop_h ix operator rest (Some r)
                            (st1[r := st1 ! r \<inter> st1 ! current_indices])
                     else search_loop_h ix operator rest (Some r)
                            (st1[r := st1 ! r \<union> st1 ! current_indices]))))"

definition search_h ::
  "heap_database \<Rightarrow> (string \<times> key) list \<Rightarrow> string \<Rightarrow> (error + apartment list) \<times> heap_database" where
  "search_h hdb criteria operator =
     (if criteria = [] then (Inr [], hdb)
      else case search_loop_h (h_indices hdb) operator criteria None (h_sets hdb) of
        (result_indices, st) \<Rightarrow>
          (case result_indices of
             None \<Rightarrow> Inr []
           | Some r \<Rightarrow>
               if st ! r = {} then Inr []
               else get_all (h_apartments hdb) (sorted_list_of_set (st ! r)),
           hdb\<lparr>h_sets := st\<rparr>))"

text \<open>Every bucket address refers to an existing object.\<close>

definition heap_valid :: "heap_database \<Rightarrow> bool" where
  "heap_valid hdb \<longleftrightarrow>
     (\<forall>f index v a. h_indices hdb f = Some index \<longrightarrow> index v = Some a \<longrightarrow> a < length (h_sets hdb))"

text \<open>The database a state with set objects stands for: each address replaced by its set.\<close>

definition abs_indices ::
  "(string \<rightharpoonup> (key \<rightharpoonup> nat)) \<Rightarrow> nat set list \<Rightarrow> (string \<rightharpoonup> (key \<rightharpoonup> nat set))" where
  "abs_indices ix st =
     (\<lambda>f. case ix f of None \<Rightarrow> None
          | Some index \<Rightarrow> Some (\<lambda>v. case index v of None \<Rightarrow> None | Some a \<Rightarrow> Some (st ! a)))"

definition abs_db :: "heap_database \<Rightarrow> apartment_database" where
  "abs_db hdb = \<lparr>apartments = h_apartments hdb, indices = abs_indices (h_indices hdb) (h_sets hdb)\<rparr>"

section \<open>Vocabulary of the properties\<close>

text \<open>The bucket of a value in an index; empty when the index or the value is absent.\<close>

definition bucket :: "apartment_database \<Rightarrow> string \<Rightarrow> key \<Rightarrow> nat set" where
  "bucket db a k =
     (case indices db a of None \<Rightarrow> {} | Some index \<Rightarrow> (case index k of None \<Rightarrow> {} | Some s \<Rightarrow> s))"

text \<open>What \<open>_add_apartment\<close> files a record under in the index of each attribute.\<close>

definition attribute_value :: "apartment \<Rightarrow> string \<Rightarrow> json" where
  "attribute_value apt a =
     (if a = ''total_area'' then JInt (total_area apt)
      else if a = ''rooms'' then JInt (rooms apt)
      else if a = ''kitchen_area'' then JInt (kitchen_area apt)
      else if a = ''balconies'' then JInt (balconies apt)
      else metro apt)"

text \<open>
  \<open>__init__\<close> creates the five indices and no method adds or removes one: the names of the
  indices of an engine are the five attribute names.
\<close>

definition has_names :: "apartment_database \<Rightarrow> bool" where
  "has_names db \<longleftrightarrow> dom (indices db) = set attribute_names"

definition ids_in_range :: "apartment_database \<Rightarrow> bool" where
  "ids_in_range db \<longleftrightarrow> (\<forall>a k. bucket db a k \<subseteq> {..<length (apartments db)})"

text \<open>
  Index consistency: the record at position \<open>p\<close> is in the bucket of its own attribute value
  and in the bucket of no other value.
\<close>

definition index_consistent :: "apartment_database \<Rightarrow> bool" where
  "index_consistent db \<longleftrightarrow>
     (\<forall>p<length (apartments db). \<forall>a\<in>set attribute_names.
        \<exists>k. hash_key (attribute_value (apartments db ! p) a) = Inr k \<and>
            (\<forall>k'. p \<in> bucket db a k' \<longleftrightarrow> k' = k))"

definition int_attribute_names :: "string list" where
  "int_attribute_names = [''total_area'', ''rooms'', ''kitchen_area'', ''balconies'']"

text \<open>
  A raw record that \<open>load_from_file\<close> cannot take in: a field is missing, \<open>int\<close> rejects one
  of the four numeric fields, or the metro cannot be a dictionary key.
\<close>

definition invalid_record :: "(string \<Rightarrow> int option) \<Rightarrow> (string \<rightharpoonup> json) \<Rightarrow> bool" where
  "invalid_record P r \<longleftrightarrow>
     (\<exists>f\<in>set attribute_names. r f = None) \<or>
     (\<exists>f\<in>set int_attribute_names. \<exists>v. r f = Some v \<and> isl (py_int P v)) \<or>
     (\<exists>v. r ''metro'' = Some v \<and> isl (hash_key v))"

text \<open>The identifiers a search ends with: the final \<open>result_indices\<close>, empty when it is \<open>None\<close>.\<close>

definition search_indices :: "apartment_database \<Rightarrow> (string \<times> key) list \<Rightarrow> string \<Rightarrow> nat set" where
  "search_indices db criteria operator =
     (if criteria = [] then {}
      else case search_loop db operator criteria None of None \<Rightarrow> {} | Some result_indices \<Rightarrow> result_indices)"

text \<open>The records at a set of identifiers, in ascending order of identifier.\<close>

definition records_at :: "apartment_database \<Rightarrow> nat set \<Rightarrow> apartment list" where
  "records_at db ids = map ((!) (apartments db)) (sorted_list_of_set ids)"

definition recognized :: "(string \<times> key) \<Rightarrow> bool" where
  "recognized c \<longleftrightarrow> fst c \<in> set attribute_names"

section \<open>Example data\<close>

text \<open>
  A reading of strings as integers for the examples: a non-empty string of ASCII digits
  is read in base ten, as Python's \<open>int\<close> does (which accepts more).
\<close>

definition digit_of :: "char \<Rightarrow> int option" where
  "digit_of c = map_of [(CHR ''0'', 0), (CHR ''1'', 1), (CHR ''2'', 2), (CHR ''3'', 3), (CHR ''4'', 4),
                        (CHR ''5'', 5), (CHR ''6'', 6), (CHR ''7'', 7), (CHR ''8'', 8), (CHR ''9'', 9)] c"

fun digits_value :: "string \<Rightarrow> int \<Rightarrow> int option" where
  "digits_value [] acc = Some acc"
| "digits_value (c # cs) acc =
     (case digit_of c of None \<Rightarrow> None | Some d \<Rightarrow> digits_value cs (10 * acc + d))"

definition plain_decimal :: "string \<Rightarrow> int option" where
  "plain_decimal s = (if s = [] then None else digits_value s 0)"

definition raw_record :: "json \<Rightarrow> json \<Rightarrow> json \<Rightarrow> json \<Rightarrow> json \<Rightarrow> (string \<rightharpoonup> json)" where
  "raw_record ta r ka b m =
     [''total_area'' \<mapsto> ta, ''rooms'' \<mapsto> r, ''kitchen_area'' \<mapsto> ka, ''balconies'' \<mapsto> b, ''metro'' \<mapsto> m]"

text \<open>The four records of \<open>create_sample_data\<close>, the station names transliterated.\<close>

definition sample_data :: "(string \<rightharpoonup> json) list" where
  "sample_data =
     [raw_record (JInt 75) (JInt 3) (JInt 12) (JInt 1) (JStr ''Akademicheskaya''),
      raw_record (JInt 45) (JInt 1) (JInt 9) (JInt 1) (JStr ''Politekhnicheskaya''),
      raw_record (JInt 60) (JInt 2) (JInt 10) (JInt 2) (JStr ''Akademicheskaya''),
      raw_record (JInt 100) (JInt 4) (JInt 15) (JInt 2) (JStr ''Politekhnicheskaya'')]"

definition sample_db :: apartment_database where
  "sample_db = fst (load_from_file plain_decimal init_db sample_data)"

definition record_0 :: apartment where
  "record_0 = \<lparr>total_area = 75, rooms = 3, kitchen_area = 12, balconies = 1,
                metro = JStr ''Akademicheskaya''\<rparr>"

definition record_1 :: apartment where
  "record_1 = \<lparr>total_area = 45, rooms = 1, kitchen_area = 9, balconies = 1,
                metro = JStr ''Politekhnicheskaya''\<rparr>"

definition record_2 :: apartment where
  "record_2 = \<lparr>total_area = 60, rooms = 2, kitchen_area = 10, balconies = 2,
                metro = JStr ''Akademicheskaya''\<rparr>"

definition record_3 :: apartment where
  "record_3 = \<lparr>total_area = 100, rooms = 4, kitchen_area = 15, balconies = 2,
                metro = JStr ''Politekhnicheskaya''\<rparr>"

text \<open>Raw records for the failure cases: no \<open>rooms\<close> field; an empty metro; an array as metro.\<close>

definition record_without_rooms :: "string \<rightharpoonup> json" where
  "record_without_rooms =
     [''total_area'' \<mapsto> JInt 50, ''kitchen_area'' \<mapsto> JInt 8, ''balconies'' \<mapsto> JInt 0,
      ''metro'' \<mapsto> JStr ''Lesnaya'']"

definition record_blank_metro :: "string \<rightharpoonup> json" where
  "record_blank_metro = raw_record (JInt 75) (JStr ''3'') (JInt 12) (JBool True) (JStr [])"

definition record_array_metro :: "string \<rightharpoonup> json" where
  "record_array_metro = raw_record (JInt 30) (JInt 1) (JInt 6) (JInt 0) (JArr [])"

text \<open>
  The sample engine with its sixteen buckets as objects: addresses 0 to 3 for the total
  areas 75, 45, 60, 100, then the rooms, the kitchen areas, the balconies and the stations.
\<close>

definition sample_heap :: heap_database where
  "sample_heap =
     \<lparr>h_apartments = [record_0, record_1, record_2, record_3],
      h_indices =
        [''total_area'' \<mapsto> [KInt 75 \<mapsto> 0, KInt 45 \<mapsto> 1, KInt 60 \<mapsto> 2, KInt 100 \<mapsto> 3],
         ''rooms'' \<mapsto> [KInt 3 \<mapsto> 4, KInt 1 \<mapsto> 5, KInt 2 \<mapsto> 6, KInt 4 \<mapsto> 7],
         ''kitchen_area'' \<mapsto> [KInt 12 \<mapsto> 8, KInt 9 \<mapsto> 9, KInt 10 \<mapsto> 10, KInt 15 \<mapsto> 11],
         ''balconies'' \<mapsto> [KInt 1 \<mapsto> 12, KInt 2 \<mapsto> 13],
         ''metro'' \<mapsto> [KStr ''Akademicheskaya'' \<mapsto> 14, KStr ''Politekhnicheskaya'' \<mapsto> 15]],
      h_sets = [{0}, {1}, {2}, {3}, {0}, {1}, {2}, {3}, {0}, {1}, {2}, {3},
                {0, 1}, {2, 3}, {0, 2}, {1, 3}]\<rparr>"

section \<open>Auxiliary facts\<close>

lemma add_to_index_None_iff:
  "add_to_index db n v i = (db', None) \<longleftrightarrow>
     (\<exists>index hk. indices db n = Some index \<and> hash_key v = Inr hk \<and>
        db' = db\<lparr>indices := (indices db)(n \<mapsto>
                 index(hk \<mapsto> insert i (case index hk of None \<Rightarrow> {} | Some s \<Rightarrow> s)))\<rparr>)"
proof (cases "indices db n")
  case None
  then show ?thesis by (simp add: add_to_index_def)
next
  case (Some index)
  show ?thesis
  proof (cases "hash_key v")
    case (Inl e)
    with Some show ?thesis by (simp add: add_to_index_def)
  next
    case (Inr hk)
    with Some show ?thesis
      by (cases "index hk") (auto simp: add_to_index_def Let_def)
  qed
qed

lemma add_to_index_ok:
  assumes "add_to_index db n v i = (db', None)"
  shows "\<exists>hk. indices db n \<noteq> None \<and> hash_key v = Inr hk \<and>
           apartments db' = apartments db \<and> dom (indices db') = dom (indices db) \<and>
           (\<forall>a k. bucket db' a k = (if a = n \<and> k = hk then insert i (bucket db a k) else bucket db a k))"
proof -
  from assms obtain index hk where ix: "indices db n = Some index" and hk: "hash_key v = Inr hk"
    and db': "db' = db\<lparr>indices := (indices db)(n \<mapsto>
                 index(hk \<mapsto> insert i (case index hk of None \<Rightarrow> {} | Some s \<Rightarrow> s)))\<rparr>"
    unfolding add_to_index_None_iff by blast
  have "dom (indices db') = dom (indices db)"
    using ix db' by auto
  moreover have "bucket db' a k = (if a = n \<and> k = hk then insert i (bucket db a k) else bucket db a k)" for a k
    using ix db' by (simp add: bucket_def)
  ultimately show ?thesis using ix hk db' by simp
qed

lemma add_to_index_err:
  assumes "add_to_index db n v i = (db', Some e)"
  shows "db' = db \<and> (indices db n = None \<and> e = KeyError n \<or> indices db n \<noteq> None \<and> hash_key v = Inl e)"
  using assms
  by (auto simp: add_to_index_def Let_def split: option.splits sum.splits if_splits)

lemma add_to_index_total:
  assumes "indices db n \<noteq> None" "hash_key v = Inr hk"
  obtains db' where "add_to_index db n v i = (db', None)"
  using assms by (auto simp: add_to_index_def Let_def split: option.splits sum.splits if_splits)

lemma has_names_lookup:
  "has_names db \<Longrightarrow> indices db a \<noteq> None \<longleftrightarrow> a \<in> set attribute_names"
  unfolding has_names_def by (metis domIff)

lemma add_apartment_ok:
  assumes "add_apartment db apt = (db', None)"
  shows "apartments db' = apartments db @ [apt]"
    and "dom (indices db') = dom (indices db)"
    and "set attribute_names \<subseteq> dom (indices db)"
    and "\<exists>k. hash_key (metro apt) = Inr k"
    and "bucket db' a k =
           (if a \<in> set attribute_names \<and> hash_key (attribute_value apt a) = Inr k
            then insert (length (apartments db)) (bucket db a k) else bucket db a k)"
proof -
  let ?i = "length (apartments db)"
  let ?db1 = "db\<lparr>apartments := apartments db @ [apt]\<rparr>"
  from assms obtain db2 db3 db4 db5 where
    s1: "add_to_index ?db1 ''total_area'' (JInt (total_area apt)) ?i = (db2, None)" and
    s2: "add_to_index db2 ''rooms'' (JInt (rooms apt)) ?i = (db3, None)" and
    s3: "add_to_index db3 ''kitchen_area'' (JInt (kitchen_area apt)) ?i = (db4, None)" and
    s4: "add_to_index db4 ''balconies'' (JInt (balconies apt)) ?i = (db5, None)" and
    s5: "add_to_index db5 ''metro'' (metro apt) ?i = (db', None)"
    by (auto simp: add_apartment_def Let_def and_then_def split: prod.splits option.splits)
  note o1 = add_to_index_ok [OF s1] and o2 = add_to_index_ok [OF s2]
    and o3 = add_to_index_ok [OF s3] and o4 = add_to_index_ok [OF s4]
    and o5 = add_to_index_ok [OF s5]
  show "apartments db' = apartments db @ [apt]"
    using o1 o2 o3 o4 o5 by auto
  have d: "dom (indices db') = dom (indices ?db1)"
    using o1 o2 o3 o4 o5 by auto
  then show "dom (indices db') = dom (indices db)" by simp
  have "indices ?db1 ''total_area'' \<noteq> None" "indices db2 ''rooms'' \<noteq> None"
    "indices db3 ''kitchen_area'' \<noteq> None" "indices db4 ''balconies'' \<noteq> None"
    "indices db5 ''metro'' \<noteq> None"
    using o1 o2 o3 o4 o5 by auto
  moreover have "dom (indices db2) = dom (indices db)" "dom (indices db3) = dom (indices db)"
    "dom (indices db4) = dom (indices db)" "dom (indices db5) = dom (indices db)"
    using o1 o2 o3 o4 by auto
  ultimately show "set attribute_names \<subseteq> dom (indices db)"
    by (auto simp: attribute_names_def domIff)
  show "\<exists>k. hash_key (metro apt) = Inr k" using o5 by auto
  obtain mk where mk: "hash_key (metro apt) = Inr mk" using o5 by auto
  have b1: "bucket db2 a k = (if a = ''total_area'' \<and> k = KInt (total_area apt) then insert ?i (bucket ?db1 a k) else bucket ?db1 a k)"
    using o1 by auto
  have b2: "bucket db3 a k = (if a = ''rooms'' \<and> k = KInt (rooms apt) then insert ?i (bucket db2 a k) else bucket db2 a k)"
    using o2 by auto
  have b3: "bucket db4 a k = (if a = ''kitchen_area'' \<and> k = KInt (kitchen_area apt) then insert ?i (bucket db3 a k) else bucket db3 a k)"
    using o3 by auto
  have b4: "bucket db5 a k = (if a = ''balconies'' \<and> k = KInt (balconies apt) then insert ?i (bucket db4 a k) else bucket db4 a k)"
    using o4 by auto
  have b5: "bucket db' a k = (if a = ''metro'' \<and> k = mk then insert ?i (bucket db5 a k) else bucket db5 a k)"
    using o5 mk by auto
  have b0: "bucket ?db1 a k = bucket db a k"
    by (simp add: bucket_def)
  show "bucket db' a k =
           (if a \<in> set attribute_names \<and> hash_key (attribute_value apt a) = Inr k
            then insert (length (apartments db)) (bucket db a k) else bucket db a k)"
    unfolding b5 b4 b3 b2 b1 b0 using mk
    by (auto simp: attribute_names_def attribute_value_def)
qed

lemma add_apartment_names:
  assumes "set attribute_names \<subseteq> dom (indices db)"
  shows "snd (add_apartment db apt) = (case hash_key (metro apt) of Inl e \<Rightarrow> Some e | Inr k \<Rightarrow> None)"
    and "apartments (fst (add_apartment db apt)) = apartments db @ [apt]"
proof -
  let ?i = "length (apartments db)"
  let ?db1 = "db\<lparr>apartments := apartments db @ [apt]\<rparr>"
  have n: "indices db ''total_area'' \<noteq> None" "indices db ''rooms'' \<noteq> None"
    "indices db ''kitchen_area'' \<noteq> None" "indices db ''balconies'' \<noteq> None"
    "indices db ''metro'' \<noteq> None"
    using assms by (auto simp: attribute_names_def)
  obtain db2 where s1: "add_to_index ?db1 ''total_area'' (JInt (total_area apt)) ?i = (db2, None)"
    using add_to_index_total [of ?db1 "''total_area''" "JInt _" _ ?i] n by auto
  note o1 = add_to_index_ok [OF s1]
  obtain db3 where s2: "add_to_index db2 ''rooms'' (JInt (rooms apt)) ?i = (db3, None)"
    using add_to_index_total [of db2 "''rooms''" "JInt _" _ ?i] n o1 by (auto simp: domIff set_eq_iff)
  note o2 = add_to_index_ok [OF s2]
  obtain db4 where s3: "add_to_index db3 ''kitchen_area'' (JInt (kitchen_area apt)) ?i = (db4, None)"
    using add_to_index_total [of db3 "''kitchen_area''" "JInt _" _ ?i] n o1 o2 by (auto simp: domIff set_eq_iff)
  note o3 = add_to_index_ok [OF s3]
  obtain db5 where s4: "add_to_index db4 ''balconies'' (JInt (balconies apt)) ?i = (db5, None)"
    using add_to_index_total [of db4 "''balconies''" "JInt _" _ ?i] n o1 o2 o3 by (auto simp: domIff set_eq_iff)
  note o4 = add_to_index_ok [OF s4]
  have m: "indices db5 ''metro'' \<noteq> None"
    using n o1 o2 o3 o4 by (auto simp: domIff set_eq_iff)
  have a5: "apartments db5 = apartments db @ [apt]"
    using o1 o2 o3 o4 by auto
  have e: "add_apartment db apt = add_to_index db5 ''metro'' (metro apt) ?i"
    by (simp add: add_apartment_def Let_def and_then_def s1 s2 s3 s4)
  show "snd (add_apartment db apt) = (case hash_key (metro apt) of Inl e \<Rightarrow> Some e | Inr k \<Rightarrow> None)"
    unfolding e using m by (auto simp: add_to_index_def Let_def split: sum.splits)
  show "apartments (fst (add_apartment db apt)) = apartments db @ [apt]"
    unfolding e using m a5 by (auto simp: add_to_index_def Let_def split: sum.splits)
qed

lemma add_apartment_preserves:
  assumes ok: "add_apartment db apt = (db', None)"
    and r: "ids_in_range db" and c: "index_consistent db"
  shows "ids_in_range db'" and "index_consistent db'"
proof -
  note a = add_apartment_ok [OF ok]
  let ?n = "length (apartments db)"
  show "ids_in_range db'"
    using r unfolding ids_in_range_def a(1) a(5) by (auto simp: less_Suc_eq subset_iff)
  have fresh: "?n \<notin> bucket db x k" for x k
    using r unfolding ids_in_range_def by (meson lessThan_iff less_irrefl subsetD)
  show "index_consistent db'"
    unfolding index_consistent_def
  proof (intro allI impI ballI)
    fix p x
    assume p: "p < length (apartments db')" and x: "x \<in> set attribute_names"
    show "\<exists>k. hash_key (attribute_value (apartments db' ! p) x) = Inr k \<and>
            (\<forall>k'. (p \<in> bucket db' x k') = (k' = k))"
    proof (cases "p < ?n")
      case True
      then obtain k where k: "hash_key (attribute_value (apartments db ! p) x) = Inr k"
        "\<forall>k'. (p \<in> bucket db x k') = (k' = k)"
        using c x unfolding index_consistent_def by blast
      have "apartments db' ! p = apartments db ! p"
        using True by (simp add: a(1) nth_append)
      moreover have "(p \<in> bucket db' x k') = (p \<in> bucket db x k')" for k'
        using True by (auto simp: a(5))
      ultimately show ?thesis using k by auto
    next
      case False
      with p have pn: "p = ?n" by (simp add: a(1))
      have apt: "apartments db' ! p = apt" by (simp add: a(1) pn)
      obtain mk where mk: "hash_key (metro apt) = Inr mk" using a(4) by blast
      obtain k where k: "hash_key (attribute_value apt x) = Inr k"
        using x mk by (auto simp: attribute_names_def attribute_value_def)
      have "(p \<in> bucket db' x k') = (k' = k)" for k'
        using x k fresh by (auto simp: a(5) pn)
      then show ?thesis using k apt by auto
    qed
  qed
qed

lemma load_loop_append:
  "load_loop P db (xs @ ys) = and_then (load_loop P db xs) (\<lambda>db1. load_loop P db1 ys)"
proof (induction xs arbitrary: db)
  case Nil
  show ?case by (simp add: and_then_def)
next
  case (Cons x xs)
  show ?case
  proof (cases "make_apartment P x")
    case (Inl e)
    then show ?thesis by (simp add: and_then_def)
  next
    case (Inr apt)
    obtain db1 r where a: "add_apartment db apt = (db1, r)" by (cases "add_apartment db apt")
    show ?thesis
      using Inr a Cons.IH [of db1] by (cases r) (simp_all add: and_then_def)
  qed
qed

lemma load_loop_ok:
  assumes "load_loop P db data = (db', None)" "ids_in_range db" "index_consistent db"
  shows "ids_in_range db' \<and> index_consistent db' \<and> dom (indices db') = dom (indices db)
           \<and> length (apartments db') = length (apartments db) + length data"
  using assms
proof (induction data arbitrary: db)
  case Nil
  then show ?case by simp
next
  case (Cons x xs)
  from Cons.prems(1) obtain apt db1 where
    m: "make_apartment P x = Inr apt" and a: "add_apartment db apt = (db1, None)"
    and l: "load_loop P db1 xs = (db', None)"
    by (auto simp: and_then_def split: sum.splits prod.splits option.splits)
  note p = add_apartment_preserves [OF a Cons.prems(2) Cons.prems(3)]
  note o = add_apartment_ok [OF a]
  from Cons.IH [OF l p] show ?case
    using o(1) o(2) by simp
qed

lemma int_field_cases:
  "int_field P r f = (case r f of None \<Rightarrow> Inl (KeyError f) | Some v \<Rightarrow> py_int P v)"
  by (simp add: int_field_def subscript_def split: option.splits)

lemma make_apartment_Inr:
  assumes "make_apartment P r = Inr apt"
  shows "\<forall>f\<in>set attribute_names. r f \<noteq> None"
    and "\<forall>f\<in>set int_attribute_names. \<forall>v. r f = Some v \<longrightarrow> \<not> isl (py_int P v)"
    and "r ''metro'' = Some (metro apt)"
  using assms
  by (auto simp: make_apartment_def int_field_cases subscript_def attribute_names_def
      int_attribute_names_def split: sum.splits option.splits)

lemma make_apartment_Inl:
  assumes "make_apartment P r = Inl e"
  shows "(\<exists>f\<in>set attribute_names. r f = None) \<or>
         (\<exists>f\<in>set int_attribute_names. \<exists>v. r f = Some v \<and> isl (py_int P v))"
  using assms
  by (auto simp: make_apartment_def int_field_cases subscript_def attribute_names_def
      int_attribute_names_def split: sum.splits option.splits)

lemma valid_record_iff:
  "\<not> invalid_record P r \<longleftrightarrow> (\<exists>apt. make_apartment P r = Inr apt \<and> \<not> isl (hash_key (metro apt)))"
proof (cases "make_apartment P r")
  case (Inl e)
  from make_apartment_Inl [OF Inl] show ?thesis
    using Inl by (auto simp: invalid_record_def)
next
  case (Inr apt)
  from make_apartment_Inr [OF Inr] show ?thesis
    using Inr by (auto simp: invalid_record_def)
qed

lemma load_loop_valid:
  assumes "set attribute_names \<subseteq> dom (indices db)" "\<forall>r\<in>set data. \<not> invalid_record P r"
  shows "snd (load_loop P db data) = None"
  using assms
proof (induction data arbitrary: db)
  case Nil
  show ?case by simp
next
  case (Cons x xs)
  from Cons.prems(2) obtain apt where m: "make_apartment P x = Inr apt"
    and h: "\<not> isl (hash_key (metro apt))"
    using valid_record_iff [of P x] by auto
  obtain db1 e where a: "add_apartment db apt = (db1, e)" by (cases "add_apartment db apt")
  from add_apartment_names(1) [OF Cons.prems(1), of apt] h a have e: "e = None"
    by (auto split: sum.splits)
  from add_apartment_ok(2) [OF a [unfolded e]] Cons.prems(1)
  have "set attribute_names \<subseteq> dom (indices db1)" by simp
  from Cons.IH [OF this] Cons.prems(2) show ?case
    by (simp add: m a e and_then_def)
qed

lemma load_loop_invalid_head:
  assumes "set attribute_names \<subseteq> dom (indices db)" "invalid_record P r"
  shows "\<exists>e. snd (load_loop P db (r # post)) = Some e \<and>
           (make_apartment P r = Inl e \<longrightarrow> fst (load_loop P db (r # post)) = db) \<and>
           (\<forall>apt. make_apartment P r = Inr apt \<longrightarrow>
              apartments (fst (load_loop P db (r # post))) = apartments db @ [apt])"
proof (cases "make_apartment P r")
  case (Inl e)
  then show ?thesis by simp
next
  case (Inr apt)
  with assms(2) have "isl (hash_key (metro apt))"
    using valid_record_iff [of P r] by auto
  then obtain e where e: "hash_key (metro apt) = Inl e" by (cases "hash_key (metro apt)") auto
  obtain db1 r1 where a: "add_apartment db apt = (db1, r1)" by (cases "add_apartment db apt")
  from add_apartment_names [OF assms(1), of apt] e a
  have "r1 = Some e" "apartments db1 = apartments db @ [apt]" by auto
  then show ?thesis using Inr a by (simp add: and_then_def)
qed

lemma clear_names:
  "dom (indices (clear_indices (db\<lparr>apartments := []\<rparr>))) = dom (indices db)"
  by (auto simp: clear_indices_def split: option.splits)

lemma load_from_file_append:
  "load_from_file P db (xs @ ys) = and_then (load_from_file P db xs) (\<lambda>db1. load_loop P db1 ys)"
  by (simp add: load_from_file_def load_loop_append)

lemma load_fails_iff:
  assumes "has_names db"
  shows "snd (load_from_file P db data) \<noteq> None \<longleftrightarrow> (\<exists>r\<in>set data. invalid_record P r)"
proof
  let ?c = "clear_indices (db\<lparr>apartments := []\<rparr>)"
  have n: "set attribute_names \<subseteq> dom (indices ?c)"
    using assms by (simp add: clear_names has_names_def)
  {
    assume "snd (load_from_file P db data) \<noteq> None"
    then show "\<exists>r\<in>set data. invalid_record P r"
      using load_loop_valid [OF n, of data P] unfolding load_from_file_def by meson
  next
    assume "\<exists>r\<in>set data. invalid_record P r"
    then obtain pre r post where d: "data = pre @ r # post" and r: "invalid_record P r"
      and pre: "\<forall>x\<in>set pre. \<not> invalid_record P x"
      using split_list_first_prop [of data "invalid_record P"] by blast
    obtain db1 where l: "load_loop P ?c pre = (db1, None)"
      using load_loop_valid [OF n pre] by (cases "load_loop P ?c pre") auto
    have "dom (indices db1) = dom (indices ?c)"
      using l
    proof (induction pre arbitrary: db1 rule: rev_induct)
      case Nil
      then show ?case by simp
    next
      case (snoc x xs)
      from snoc.prems obtain db0 apt where "load_loop P ?c xs = (db0, None)"
        and "make_apartment P x = Inr apt" and "add_apartment db0 apt = (db1, None)"
        by (auto simp: load_loop_append and_then_def split: prod.splits option.splits sum.splits)
      then show ?case using snoc.IH add_apartment_ok(2) by metis
    qed
    with n have "set attribute_names \<subseteq> dom (indices db1)" by simp
    from load_loop_invalid_head [OF this r, of post] show "snd (load_from_file P db data) \<noteq> None"
      by (auto simp: load_from_file_def d load_loop_append l and_then_def)
  }
qed

lemma get_all_map:
  "set ids \<subseteq> {..<length xs} \<Longrightarrow> get_all xs ids = Inr (map ((!) xs) ids)"
  by (induction ids) auto

lemma search_get_all:
  "search db criteria operator =
     get_all (apartments db) (sorted_list_of_set (search_indices db criteria operator))"
  by (simp add: search_def search_indices_def split: option.splits)

lemma search_loop_step:
  "search_loop db operator ((f, v) # rest) acc =
     (case indices db f of
        None \<Rightarrow> search_loop db operator rest acc
      | Some index \<Rightarrow> search_loop db operator rest
          (Some (case acc of None \<Rightarrow> bucket db f v
                 | Some r \<Rightarrow> if operator = ''AND'' then r \<inter> bucket db f v else r \<union> bucket db f v)))"
  by (simp add: get_index_for_field_def bucket_def Let_def split: option.splits)

declare search_loop.simps(2) [simp del]

lemma search_loop_range:
  assumes "ids_in_range db" "\<forall>r. acc = Some r \<longrightarrow> r \<subseteq> {..<length (apartments db)}"
  shows "\<forall>r. search_loop db operator criteria acc = Some r \<longrightarrow> r \<subseteq> {..<length (apartments db)}"
  using assms(2)
proof (induction criteria arbitrary: acc)
  case Nil
  then show ?case by simp
next
  case (Cons c cs)
  obtain f v where c: "c = (f, v)" by (cases c)
  have b: "bucket db f v \<subseteq> {..<length (apartments db)}"
    using assms(1) by (simp add: ids_in_range_def)
  show ?case
  proof (cases "indices db f")
    case None
    then show ?thesis using Cons by (simp add: c search_loop_step)
  next
    case (Some index)
    show ?thesis
      unfolding c search_loop_step Some option.case
      by (rule Cons.IH) (use b Cons.prems in \<open>auto split: option.splits\<close>)
  qed
qed

lemma search_indices_range:
  assumes "ids_in_range db"
  shows "search_indices db criteria operator \<subseteq> {..<length (apartments db)}"
  using search_loop_range [OF assms, of None operator criteria]
  by (auto simp: search_indices_def split: option.splits)

lemma search_map_nth:
  assumes "ids_in_range db"
  shows "search db criteria operator =
     Inr (map ((!) (apartments db)) (sorted_list_of_set (search_indices db criteria operator)))"
proof -
  let ?A = "search_indices db criteria operator"
  have sub: "?A \<subseteq> {..<length (apartments db)}" by (rule search_indices_range [OF assms])
  then have "finite ?A" by (rule finite_subset) simp
  then have "set (sorted_list_of_set ?A) \<subseteq> {..<length (apartments db)}" using sub by simp
  then show ?thesis unfolding search_get_all by (rule get_all_map)
qed

lemma sorted_list_of_set_filter_upt:
  assumes "A \<subseteq> {..<n}"
  shows "sorted_list_of_set A = filter (\<lambda>i. i \<in> A) [0..<n]"
proof (rule sorted_distinct_set_unique)
  have "finite A" using assms by (rule finite_subset) simp
  then show "sorted (sorted_list_of_set A)" "distinct (sorted_list_of_set A)"
    "set (sorted_list_of_set A) = set (filter (\<lambda>i. i \<in> A) [0..<n])"
    using assms by auto
  show "sorted (filter (\<lambda>i. i \<in> A) [0..<n])" by (simp add: sorted_wrt_filter)
  show "distinct (filter (\<lambda>i. i \<in> A) [0..<n])" by simp
qed

lemma map_nth_filter_upt:
  "map ((!) xs) (filter (\<lambda>i. i \<in> A) [0..<length xs]) = nths xs A"
proof -
  have "zip xs [0..<length xs] = map (\<lambda>i. (xs ! i, i)) [0..<length xs]"
    by (rule nth_equalityI) auto
  then show ?thesis
    by (simp add: nths_def filter_map comp_def)
qed

lemma map_nth_sorted_list_of_set:
  "A \<subseteq> {..<length xs} \<Longrightarrow> map ((!) xs) (sorted_list_of_set A) = nths xs A"
  by (simp add: sorted_list_of_set_filter_upt map_nth_filter_upt)

lemma search_loop_filter:
  assumes "has_names db"
  shows "search_loop db operator (filter recognized criteria) acc = search_loop db operator criteria acc"
proof (induction criteria arbitrary: acc)
  case Nil
  show ?case by simp
next
  case (Cons c cs)
  obtain f v where c: "c = (f, v)" by (cases c)
  show ?case
  proof (cases "recognized c")
    case True
    then have "filter recognized (c # cs) = c # filter recognized cs" by simp
    then show ?thesis
      by (cases "indices db f") (simp_all add: c search_loop_step Cons.IH)
  next
    case False
    then have "indices db f = None"
      using has_names_lookup [OF assms, of f] by (simp add: c recognized_def)
    moreover have "filter recognized (c # cs) = filter recognized cs" using False by simp
    ultimately show ?thesis by (simp add: c search_loop_step Cons.IH)
  qed
qed

lemma search_filter:
  assumes "has_names db"
  shows "search db criteria operator = search db (filter recognized criteria) operator"
proof (cases "filter recognized criteria = []")
  case True
  have "search_loop db operator criteria None = None"
    using search_loop_filter [OF assms, of operator criteria None] True by simp
  then show ?thesis using True by (simp add: search_def)
next
  case False
  then have "criteria \<noteq> []" by auto
  then show ?thesis using False by (simp add: search_def search_loop_filter [OF assms])
qed

lemma search_loop_h_frame:
  assumes "search_loop_h ix operator cs res st = (res', st')"
    and "\<forall>r. res = Some r \<longrightarrow> n \<le> r \<and> r < length st" and "n \<le> length st"
  shows "take n st' = take n st \<and> length st \<le> length st' \<and>
         (\<forall>r. res' = Some r \<longrightarrow> n \<le> r \<and> r < length st')"
  using assms
proof (induction cs arbitrary: res st)
  case Nil
  then show ?case by simp
next
  case (Cons c cs)
  obtain f v where c: "c = (f, v)" by (cases c)
  show ?case
  proof (cases "ix f")
    case None
    with Cons.prems have "search_loop_h ix operator cs res st = (res', st')" by (simp add: c)
    from Cons.IH [OF this Cons.prems(2) Cons.prems(3)] show ?thesis .
  next
    case (Some index)
    let ?st1 = "st @ [{}]"
    let ?cur = "case index v of None \<Rightarrow> length st | Some a \<Rightarrow> a"
    show ?thesis
    proof (cases res)
      case None
      let ?st2 = "?st1 @ [?st1 ! ?cur]"
      from Cons.prems(1) have "search_loop_h ix operator cs (Some (length ?st1)) ?st2 = (res', st')"
        by (simp add: c Some None new_set_def Let_def)
      from Cons.IH [OF this] Cons.prems(3) show ?thesis by simp
    next
      case (Some r)
      let ?st2 = "?st1[r := if operator = ''AND'' then ?st1 ! r \<inter> ?st1 ! ?cur else ?st1 ! r \<union> ?st1 ! ?cur]"
      from Cons.prems(2) Some have r: "n \<le> r" "r < length st" by auto
      from Cons.prems(1) have "search_loop_h ix operator cs (Some r) ?st2 = (res', st')"
        by (simp add: c \<open>ix f = Some index\<close> Some new_set_def Let_def split: if_splits)
      from Cons.IH [OF this] r Cons.prems(3) show ?thesis by simp
    qed
  qed
qed

lemma bucket_abs:
  "bucket \<lparr>apartments = apts, indices = abs_indices ix st0\<rparr> f v =
     (case ix f of None \<Rightarrow> {} | Some index \<Rightarrow> (case index v of None \<Rightarrow> {} | Some a \<Rightarrow> st0 ! a))"
  by (simp add: bucket_def abs_indices_def split: option.splits)

lemma search_loop_h_refines:
  assumes valid: "\<forall>f index v a. ix f = Some index \<longrightarrow> index v = Some a \<longrightarrow> a < length st0"
    and len: "length st0 \<le> length st" and same: "\<forall>a<length st0. st ! a = st0 ! a"
    and rel: "case res of None \<Rightarrow> acc = None
              | Some r \<Rightarrow> length st0 \<le> r \<and> r < length st \<and> acc = Some (st ! r)"
  shows "map_option ((!) (snd (search_loop_h ix operator cs res st)))
           (fst (search_loop_h ix operator cs res st)) =
         search_loop \<lparr>apartments = apts, indices = abs_indices ix st0\<rparr> operator cs acc"
  using len same rel
proof (induction cs arbitrary: res st acc)
  case Nil
  then show ?case by (cases res) auto
next
  case (Cons c cs)
  let ?db = "\<lparr>apartments = apts, indices = abs_indices ix st0\<rparr>"
  obtain f v where c: "c = (f, v)" by (cases c)
  show ?case
  proof (cases "ix f")
    case None
    then have "abs_indices ix st0 f = None" by (simp add: abs_indices_def)
    then show ?thesis
      using Cons.IH [OF Cons.prems] None by (simp add: c search_loop_step)
  next
    case (Some index)
    then obtain aix where aix: "abs_indices ix st0 f = Some aix" by (simp add: abs_indices_def)
    let ?st1 = "st @ [{}]"
    let ?cur = "case index v of None \<Rightarrow> length st | Some a \<Rightarrow> a"
    have cur: "?st1 ! ?cur = bucket ?db f v"
    proof (cases "index v")
      case None
      then show ?thesis by (simp add: bucket_abs Some)
    next
      case (Some a)
      with valid \<open>ix f = Some index\<close> have "a < length st0" by blast
      with Cons.prems(1) Cons.prems(2) have "?st1 ! a = st0 ! a" by (simp add: nth_append)
      then show ?thesis by (simp add: bucket_abs Some \<open>ix f = Some index\<close>)
    qed
    show ?thesis
    proof (cases res)
      case None
      with Cons.prems(3) have acc: "acc = None" by simp
      let ?st2 = "?st1 @ [?st1 ! ?cur]"
      have step: "search_loop_h ix operator (c # cs) res st =
                  search_loop_h ix operator cs (Some (length ?st1)) ?st2"
        by (simp add: c Some None new_set_def Let_def)
      have "map_option ((!) (snd (search_loop_h ix operator cs (Some (length ?st1)) ?st2)))
              (fst (search_loop_h ix operator cs (Some (length ?st1)) ?st2)) =
            search_loop ?db operator cs (Some (bucket ?db f v))"
      proof (rule Cons.IH)
        show "length st0 \<le> length ?st2" using Cons.prems(1) by simp
        show "\<forall>a<length st0. ?st2 ! a = st0 ! a"
          using Cons.prems(1) Cons.prems(2) by (simp add: nth_append)
        show "case Some (length ?st1) of None \<Rightarrow> Some (bucket ?db f v) = None
              | Some r \<Rightarrow> length st0 \<le> r \<and> r < length ?st2 \<and> Some (bucket ?db f v) = Some (?st2 ! r)"
          using Cons.prems(1) cur by (simp add: nth_append)
      qed
      then show ?thesis
        unfolding step by (simp add: c search_loop_step aix acc)
    next
      case (Some r)
      with Cons.prems(3) have r: "length st0 \<le> r" "r < length st" and acc: "acc = Some (st ! r)"
        by auto
      let ?new = "if operator = ''AND'' then st ! r \<inter> bucket ?db f v else st ! r \<union> bucket ?db f v"
      let ?st2 = "?st1[r := ?new]"
      have r1: "?st1 ! r = st ! r" using r by (simp add: nth_append)
      have step: "search_loop_h ix operator (c # cs) res st =
                  search_loop_h ix operator cs (Some r) ?st2"
        using cur r1 by (simp add: c \<open>ix f = Some index\<close> Some new_set_def Let_def)
      have "map_option ((!) (snd (search_loop_h ix operator cs (Some r) ?st2)))
              (fst (search_loop_h ix operator cs (Some r) ?st2)) =
            search_loop ?db operator cs (Some ?new)"
      proof (rule Cons.IH)
        show "length st0 \<le> length ?st2" using Cons.prems(1) by simp
        show "\<forall>a<length st0. ?st2 ! a = st0 ! a"
          using Cons.prems(1) Cons.prems(2) r by (simp add: nth_append)
        show "case Some r of None \<Rightarrow> Some ?new = None
              | Some r' \<Rightarrow> length st0 \<le> r' \<and> r' < length ?st2 \<and> Some ?new = Some (?st2 ! r')"
          using r by simp
      qed
      then show ?thesis
        unfolding step by (simp add: c search_loop_step aix acc)
    qed
  qed
qed

lemma search_h_frame:
  "h_apartments (snd (search_h hdb criteria operator)) = h_apartments hdb \<and>
   h_indices (snd (search_h hdb criteria operator)) = h_indices hdb \<and>
   take (length (h_sets hdb)) (h_sets (snd (search_h hdb criteria operator))) = h_sets hdb"
proof (cases "criteria = []")
  case True
  then show ?thesis by (simp add: search_h_def)
next
  case False
  obtain res st where l: "search_loop_h (h_indices hdb) operator criteria None (h_sets hdb) = (res, st)"
    by (cases "search_loop_h (h_indices hdb) operator criteria None (h_sets hdb)")
  from search_loop_h_frame [OF l, of "length (h_sets hdb)"]
  have "take (length (h_sets hdb)) st = h_sets hdb" by simp
  then show ?thesis using False l by (simp add: search_h_def)
qed

lemma search_h_refines:
  assumes "heap_valid hdb"
  shows "fst (search_h hdb criteria operator) = search (abs_db hdb) criteria operator"
proof (cases "criteria = []")
  case True
  then show ?thesis by (simp add: search_h_def search_def)
next
  case False
  obtain res st where l: "search_loop_h (h_indices hdb) operator criteria None (h_sets hdb) = (res, st)"
    by (cases "search_loop_h (h_indices hdb) operator criteria None (h_sets hdb)")
  have "map_option ((!) (snd (search_loop_h (h_indices hdb) operator criteria None (h_sets hdb))))
           (fst (search_loop_h (h_indices hdb) operator criteria None (h_sets hdb))) =
         search_loop \<lparr>apartments = h_apartments hdb, indices = abs_indices (h_indices hdb) (h_sets hdb)\<rparr>
           operator criteria None"
    by (rule search_loop_h_refines) (use assms in \<open>auto simp: heap_valid_def\<close>)
  then have "search_loop (abs_db hdb) operator criteria None = map_option ((!) st) res"
    by (simp add: l abs_db_def)
  then show ?thesis
    using False l by (cases res) (simp_all add: search_h_def search_def abs_db_def)
qed

lemma has_names_init: "has_names init_db"
  by (auto simp: has_names_def init_db_def attribute_names_def split: if_splits)

lemma add_to_index_dom:
  "dom (indices (fst (add_to_index db n v i))) = dom (indices db)"
proof -
  obtain db' r where a: "add_to_index db n v i = (db', r)" by (cases "add_to_index db n v i")
  show ?thesis
  proof (cases r)
    case None
    with a add_to_index_ok [of db n v i db'] show ?thesis by auto
  next
    case (Some e)
    with a add_to_index_err [of db n v i db' e] show ?thesis by auto
  qed
qed

lemma and_then_dom:
  assumes "dom (indices (fst r)) = D"
    and "\<And>d. dom (indices d) = D \<Longrightarrow> dom (indices (fst (f d))) = D"
  shows "dom (indices (fst (and_then r f))) = D"
  using assms by (cases r) (auto simp: and_then_def split: option.splits)

lemma add_apartment_dom:
  "dom (indices (fst (add_apartment db apt))) = dom (indices db)"
  unfolding add_apartment_def Let_def
  by (intro and_then_dom) (simp_all add: add_to_index_dom)

lemma load_loop_dom:
  "dom (indices (fst (load_loop P db data))) = dom (indices db)"
proof (induction data arbitrary: db)
  case Nil
  show ?case by simp
next
  case (Cons x xs)
  show ?case
  proof (cases "make_apartment P x")
    case (Inl e)
    then show ?thesis by simp
  next
    case (Inr apt)
    have "dom (indices (fst (and_then (add_apartment db apt) (\<lambda>db1. load_loop P db1 xs)))) = dom (indices db)"
      by (rule and_then_dom) (simp_all add: add_apartment_dom Cons.IH)
    then show ?thesis by (simp add: Inr)
  qed
qed

lemma load_from_file_dom:
  "dom (indices (fst (load_from_file P db data))) = dom (indices db)"
  by (simp add: load_from_file_def load_loop_dom clear_names)

lemma has_names_load:
  "has_names db \<Longrightarrow> has_names (fst (load_from_file P db data))"
  by (simp add: has_names_def load_from_file_dom)

lemma bucket_cleared:
  "bucket (clear_indices (db\<lparr>apartments := []\<rparr>)) a k = {}"
  by (simp add: bucket_def clear_indices_def split: option.splits)

lemma loaded_invariants:
  assumes "snd (load_from_file P db0 data) = None"
  shows "ids_in_range (fst (load_from_file P db0 data))"
    and "index_consistent (fst (load_from_file P db0 data))"
    and "length (apartments (fst (load_from_file P db0 data))) = length data"
proof -
  let ?c = "clear_indices (db0\<lparr>apartments := []\<rparr>)"
  have l: "load_loop P ?c data = (fst (load_from_file P db0 data), None)"
    using assms by (simp add: load_from_file_def prod_eq_iff)
  have a: "apartments ?c = []" by (simp add: clear_indices_def)
  have r: "ids_in_range ?c" by (simp add: ids_in_range_def bucket_cleared)
  have c: "index_consistent ?c" by (simp add: index_consistent_def a)
  from load_loop_ok [OF l r c] a
  show "ids_in_range (fst (load_from_file P db0 data))"
    and "index_consistent (fst (load_from_file P db0 data))"
    and "length (apartments (fst (load_from_file P db0 data))) = length data"
    by simp_all
qed

lemma search_indices_single:
  assumes "indices db f \<noteq> None"
  shows "search_indices db [(f, v)] operator = bucket db f v"
  using assms by (auto simp: search_indices_def search_loop_step)

lemma search_indices_pair:
  assumes "indices db f1 \<noteq> None" "indices db f2 \<noteq> None"
  shows "search_indices db [(f1, v1), (f2, v2)] operator =
     (if operator = ''AND'' then bucket db f1 v1 \<inter> bucket db f2 v2
      else bucket db f1 v1 \<union> bucket db f2 v2)"
  using assms by (auto simp: search_indices_def search_loop_step)

lemma search_records_at:
  "ids_in_range db \<Longrightarrow> search db criteria operator = Inr (records_at db (search_indices db criteria operator))"
  by (simp add: search_map_nth records_at_def)

lemma load_twice:
  "load_from_file P (fst (load_from_file P db data)) data = load_from_file P db data"
proof -
  let ?db1 = "fst (load_from_file P db data)"
  have d: "dom (indices ?db1) = dom (indices db)" by (rule load_from_file_dom)
  have e: "(indices ?db1 name = None) = (indices db name = None)" for name
    using d by (metis domIff)
  have "(case indices ?db1 name of None \<Rightarrow> None | Some index \<Rightarrow> Some Map.empty) =
        (case indices db name of None \<Rightarrow> None | Some index \<Rightarrow> Some (Map.empty :: key \<rightharpoonup> nat set))" for name
    using e [of name] by (cases "indices ?db1 name"; cases "indices db name") auto
  then have "clear_indices (?db1\<lparr>apartments := []\<rparr>) = clear_indices (db\<lparr>apartments := []\<rparr>)"
    by (intro apartment_database.equality) (simp_all add: clear_indices_def)
  then show ?thesis by (simp add: load_from_file_def)
qed

lemma abs_db_frame:
  assumes "heap_valid hdb"
  shows "abs_db (snd (search_h hdb criteria operator)) = abs_db hdb"
proof -
  let ?h = "snd (search_h hdb criteria operator)"
  note f = search_h_frame [of hdb criteria operator]
  have "h_sets ?h ! a = h_sets hdb ! a" if "a < length (h_sets hdb)" for a
  proof -
    have "take (length (h_sets hdb)) (h_sets ?h) ! a = h_sets ?h ! a" using that by simp
    then show ?thesis using f by simp
  qed
  then have "abs_indices (h_indices hdb) (h_sets ?h) = abs_indices (h_indices hdb) (h_sets hdb)"
    using assms by (auto simp: abs_indices_def heap_valid_def fun_eq_iff split: option.splits)
  then show ?thesis using f by (simp add: abs_db_def)
qed

lemma load_loop_hash_error:
  assumes "set attribute_names \<subseteq> dom (indices db)"
    and "make_apartment P r = Inr apt" and "hash_key (metro apt) = Inl e"
  shows "snd (load_loop P db (r # post)) = Some e"
    and "apartments (fst (load_loop P db (r # post))) = apartments db @ [apt]"
proof -
  obtain db1 r1 where a: "add_apartment db apt = (db1, r1)" by (cases "add_apartment db apt")
  from add_apartment_names [OF assms(1), of apt] assms(3) a
  have "r1 = Some e" "apartments db1 = apartments db @ [apt]" by auto
  then show "snd (load_loop P db (r # post)) = Some e"
    and "apartments (fst (load_loop P db (r # post))) = apartments db @ [apt]"
    using assms(2) a by (simp_all add: and_then_def)
qed

subsection \<open>The sample engine\<close>

lemma sample_loaded: "snd (load_from_file plain_decimal init_db sample_data) = None"
  by code_simp

lemma sample_apartments: "apartments sample_db = [record_0, record_1, record_2, record_3]"
  by code_simp

lemma has_names_sample: "has_names sample_db"
  unfolding sample_db_def by (rule has_names_load [OF has_names_init])

text \<open>The four queries of \<open>test_apartment_database\<close>.\<close>

lemma sample_search_metro:
  "search sample_db [(''metro'', KStr ''Akademicheskaya'')] ''AND'' = Inr [record_0, record_2]"
  by code_simp

lemma sample_search_rooms:
  "search sample_db [(''rooms'', KInt 2)] ''AND'' = Inr [record_2]"
  by code_simp

lemma sample_search_and:
  "search sample_db [(''balconies'', KInt 2), (''metro'', KStr ''Politekhnicheskaya'')] ''AND'' =
     Inr [record_3]"
  by code_simp

lemma sample_search_or:
  "search sample_db [(''total_area'', KInt 75), (''balconies'', KInt 2)] ''OR'' =
     Inr [record_0, record_2, record_3]"
  by code_simp

lemma heap_valid_sample: "heap_valid sample_heap"
  by (auto simp: heap_valid_def sample_heap_def split: if_splits)

section \<open>Failure of a load\<close>

text \<open>
  C1, as stated, does not hold. A record without \<open>rooms\<close> makes the load of a four-record
  engine raise \<open>KeyError\<close>, and the engine is then empty instead of unchanged; and a record
  whose metro is the empty string is loaded without an error.
\<close>

theorem load_no_rollback_counterexample:
  "snd (load_from_file plain_decimal sample_db [record_without_rooms]) = Some (KeyError ''rooms'') \<and>
   fst (load_from_file plain_decimal sample_db [record_without_rooms]) \<noteq> sample_db \<and>
   apartments (fst (load_from_file plain_decimal sample_db [record_without_rooms])) = [] \<and>
   length (apartments sample_db) = 4 \<and>
   snd (load_from_file plain_decimal init_db [record_blank_metro]) = None"
proof -
  have e: "snd (load_from_file plain_decimal sample_db [record_without_rooms]) = Some (KeyError ''rooms'')"
    by code_simp
  have a: "apartments (fst (load_from_file plain_decimal sample_db [record_without_rooms])) = []"
    by code_simp
  have l: "length (apartments sample_db) = 4"
    by (simp add: sample_apartments)
  have b: "snd (load_from_file plain_decimal init_db [record_blank_metro]) = None"
    by code_simp
  from a l have "fst (load_from_file plain_decimal sample_db [record_without_rooms]) \<noteq> sample_db"
    by auto
  with e a l b show ?thesis by simp
qed

text \<open>
  C1, amended. A load raises exactly when some record lacks one of the five fields, or
  has a numeric field that \<open>int\<close> rejects, or has a metro that cannot be hashed; the metro is
  not checked otherwise. The exception reaches the caller and nothing is rolled back: the
  store and the indices were emptied first, and after a failure on a missing or rejected
  field the engine is the one that loading the records before the first offending record
  produces; when the metro of that record is what cannot be hashed, the record is in the
  store as well.
\<close>

theorem load_failure:
  assumes "has_names db"
  shows "((snd (load_from_file P db data) \<noteq> None) = (\<exists>r\<in>set data. invalid_record P r)) \<and>
    (\<forall>pre r post. data = pre @ r # post \<longrightarrow> (\<forall>x\<in>set pre. \<not> invalid_record P x) \<longrightarrow>
       (\<forall>e. make_apartment P r = Inl e \<longrightarrow>
          load_from_file P db data = (fst (load_from_file P db pre), Some e)) \<and>
       (\<forall>apt e. make_apartment P r = Inr apt \<longrightarrow> hash_key (metro apt) = Inl e \<longrightarrow>
          snd (load_from_file P db data) = Some e \<and>
          apartments (fst (load_from_file P db data)) =
            apartments (fst (load_from_file P db pre)) @ [apt]))"
proof (intro conjI allI impI)
  show "(snd (load_from_file P db data) \<noteq> None) = (\<exists>r\<in>set data. invalid_record P r)"
    by (rule load_fails_iff [OF assms])
next
  fix pre r post
  assume d: "data = pre @ r # post" and pre: "\<forall>x\<in>set pre. \<not> invalid_record P x"
  let ?db1 = "fst (load_from_file P db pre)"
  have "snd (load_from_file P db pre) = None"
    using load_fails_iff [OF assms, of P pre] pre by blast
  then have l: "load_from_file P db pre = (?db1, None)" by (simp add: prod_eq_iff)
  have n: "set attribute_names \<subseteq> dom (indices ?db1)"
    using assms by (simp add: load_from_file_dom has_names_def)
  have step: "load_from_file P db data = load_loop P ?db1 (r # post)"
    unfolding d load_from_file_append by (subst l) (simp add: and_then_def)
  {
    fix e
    assume "make_apartment P r = Inl e"
    then show "load_from_file P db data = (?db1, Some e)"
      unfolding step by simp
  }
  {
    fix apt e
    assume m: "make_apartment P r = Inr apt" and h: "hash_key (metro apt) = Inl e"
    from load_loop_hash_error [OF n m h, of post]
    show "snd (load_from_file P db data) = Some e"
      and "apartments (fst (load_from_file P db data)) = apartments ?db1 @ [apt]"
      unfolding step by simp_all
  }
qed

theorem load_failure_witness:
  "has_names init_db \<and>
   \<not> invalid_record plain_decimal record_blank_metro \<and>
   invalid_record plain_decimal record_without_rooms \<and>
   invalid_record plain_decimal record_array_metro \<and>
   snd (load_from_file plain_decimal init_db [record_blank_metro, record_without_rooms]) \<noteq> None \<and>
   load_from_file plain_decimal init_db [record_blank_metro, record_without_rooms, record_array_metro] =
     (fst (load_from_file plain_decimal init_db [record_blank_metro]), Some (KeyError ''rooms'')) \<and>
   snd (load_from_file plain_decimal init_db [record_blank_metro, record_array_metro]) = Some TypeError \<and>
   length (apartments (fst (load_from_file plain_decimal init_db [record_blank_metro, record_array_metro]))) = 2"
proof -
  have v: "\<not> invalid_record plain_decimal record_blank_metro"
    by (simp add: invalid_record_def record_blank_metro_def raw_record_def attribute_names_def
        int_attribute_names_def plain_decimal_def digit_of_def)
  have i: "invalid_record plain_decimal record_without_rooms"
    by (simp add: invalid_record_def record_without_rooms_def attribute_names_def)
  have j: "invalid_record plain_decimal record_array_metro"
    by (simp add: invalid_record_def record_array_metro_def raw_record_def)
  have m: "make_apartment plain_decimal record_without_rooms = Inl (KeyError ''rooms'')"
    by code_simp
  have k: "make_apartment plain_decimal record_array_metro =
             Inr \<lparr>total_area = 30, rooms = 1, kitchen_area = 6, balconies = 0, metro = JArr []\<rparr>"
    by code_simp
  have one: "length (apartments (fst (load_from_file plain_decimal init_db [record_blank_metro]))) = 1"
    by code_simp
  note t1 = load_failure [OF has_names_init, of plain_decimal "[record_blank_metro, record_without_rooms]"]
  note t2 = load_failure [OF has_names_init, of plain_decimal
      "[record_blank_metro, record_without_rooms, record_array_metro]"]
  note t3 = load_failure [OF has_names_init, of plain_decimal "[record_blank_metro, record_array_metro]"]
  have a: "snd (load_from_file plain_decimal init_db [record_blank_metro, record_without_rooms]) \<noteq> None"
    using t1 i by simp
  have b: "load_from_file plain_decimal init_db [record_blank_metro, record_without_rooms, record_array_metro] =
     (fst (load_from_file plain_decimal init_db [record_blank_metro]), Some (KeyError ''rooms''))"
    using t2 [THEN conjunct2, rule_format, of "[record_blank_metro]" record_without_rooms "[record_array_metro]"]
      v m by simp
  have c: "snd (load_from_file plain_decimal init_db [record_blank_metro, record_array_metro]) = Some TypeError \<and>
     apartments (fst (load_from_file plain_decimal init_db [record_blank_metro, record_array_metro])) =
       apartments (fst (load_from_file plain_decimal init_db [record_blank_metro])) @
         [\<lparr>total_area = 30, rooms = 1, kitchen_area = 6, balconies = 0, metro = JArr []\<rparr>]"
    using t3 [THEN conjunct2, rule_format, of "[record_blank_metro]" record_array_metro "[]"]
      v k by simp
  from c one
  have "length (apartments (fst (load_from_file plain_decimal init_db [record_blank_metro, record_array_metro]))) = 2"
    by simp
  with has_names_init v i j a b c show ?thesis by simp
qed

section \<open>Unrecognized attributes\<close>

text \<open>
  C2, as stated, does not hold. In the sample engine the query for two rooms and an
  unknown field under \<open>AND\<close> returns the two-room record: the unknown field did not
  contribute an empty set to the intersection.
\<close>

theorem unknown_field_under_and_counterexample:
  "search sample_db [(''rooms'', KInt 2), (''unknown_field'', KInt 1)] ''AND'' = Inr [record_2] \<and>
   search sample_db [(''rooms'', KInt 2), (''unknown_field'', KInt 1)] ''AND'' \<noteq> Inr []"
proof -
  have "search sample_db [(''rooms'', KInt 2), (''unknown_field'', KInt 1)] ''AND'' = Inr [record_2]"
    by code_simp
  then show ?thesis by simp
qed

text \<open>
  C2, amended. A criterion whose attribute is not one of the five searchable attributes
  is skipped: it contributes nothing to the fold and raises no error, so a search returns
  what it returns for its recognized criteria alone. A query with a single unrecognized
  criterion returns the empty list, and a recognized criterion followed by an unrecognized
  one returns, under any operator, the matches of the recognized one.
\<close>

theorem search_skips_unrecognized:
  assumes "has_names db"
  shows "search db criteria operator = search db (filter recognized criteria) operator \<and>
    (\<forall>f v. f \<notin> set attribute_names \<longrightarrow> search db [(f, v)] operator = Inr []) \<and>
    (\<forall>c f v. recognized c \<longrightarrow> f \<notin> set attribute_names \<longrightarrow>
       search db [c, (f, v)] operator = search db [c] operator)"
proof (intro conjI allI impI)
  show "search db criteria operator = search db (filter recognized criteria) operator"
    by (rule search_filter [OF assms])
next
  fix f v
  assume "f \<notin> set attribute_names"
  then have "filter recognized [(f, v)] = []" by (simp add: recognized_def)
  then show "search db [(f, v)] operator = Inr []"
    using search_filter [OF assms, of "[(f, v)]" operator] by (simp add: search_def)
next
  fix c f v
  assume "recognized c" and "f \<notin> set attribute_names"
  then have "filter recognized [c, (f, v)] = [c]" by (simp add: recognized_def)
  then show "search db [c, (f, v)] operator = search db [c] operator"
    using search_filter [OF assms, of "[c, (f, v)]" operator] by simp
qed

theorem search_skips_unrecognized_witness:
  "has_names sample_db \<and> recognized (''rooms'', KInt 2) \<and> ''unknown_field'' \<notin> set attribute_names \<and>
   search sample_db [(''unknown_field'', KInt 1)] ''AND'' = Inr [] \<and>
   search sample_db [(''rooms'', KInt 2), (''unknown_field'', KInt 1)] ''AND'' =
     search sample_db [(''rooms'', KInt 2)] ''AND''"
proof -
  have r: "recognized (''rooms'', KInt 2)" by (simp add: recognized_def attribute_names_def)
  have u: "''unknown_field'' \<notin> set attribute_names" by (simp add: attribute_names_def)
  note t = search_skips_unrecognized [OF has_names_sample, of "[]" "''AND''"]
  from t u have "search sample_db [(''unknown_field'', KInt 1)] ''AND'' = Inr []" by blast
  moreover from t r u
  have "search sample_db [(''rooms'', KInt 2), (''unknown_field'', KInt 1)] ''AND'' =
     search sample_db [(''rooms'', KInt 2)] ''AND''" by blast
  ultimately show ?thesis using has_names_sample r u by simp
qed

section \<open>Index consistency\<close>

text \<open>
  C3. After a load that returns, whatever the engine held before, every record at a
  position \<open>p\<close> is, for each of the five attributes, in the bucket of its own value and in
  the bucket of no other value, and every identifier in a bucket is a position of the
  store. A load starts from cleared indices, so it re-establishes the property rather
  than relying on it. \<open>_add_apartment\<close>, the one step that changes the store and the
  indices, preserves the property whenever it returns, and \<open>search\<close> changes nothing.
\<close>

theorem load_index_consistent:
  "(snd (load_from_file P db0 data) = None \<longrightarrow>
      index_consistent (fst (load_from_file P db0 data)) \<and>
      ids_in_range (fst (load_from_file P db0 data)) \<and>
      length (apartments (fst (load_from_file P db0 data))) = length data) \<and>
   (index_consistent db \<and> ids_in_range db \<and> snd (add_apartment db apt) = None \<longrightarrow>
      index_consistent (fst (add_apartment db apt)) \<and>
      ids_in_range (fst (add_apartment db apt)) \<and>
      apartments (fst (add_apartment db apt)) = apartments db @ [apt])"
proof (intro conjI impI)
  assume "snd (load_from_file P db0 data) = None"
  from loaded_invariants [OF this]
  show "index_consistent (fst (load_from_file P db0 data))"
    and "ids_in_range (fst (load_from_file P db0 data))"
    and "length (apartments (fst (load_from_file P db0 data))) = length data"
    by simp_all
next
  assume a: "index_consistent db \<and> ids_in_range db \<and> snd (add_apartment db apt) = None"
  then have ok: "add_apartment db apt = (fst (add_apartment db apt), None)"
    by (simp add: prod_eq_iff)
  from add_apartment_preserves [OF ok] add_apartment_ok(1) [OF ok] a
  show "index_consistent (fst (add_apartment db apt))"
    and "ids_in_range (fst (add_apartment db apt))"
    and "apartments (fst (add_apartment db apt)) = apartments db @ [apt]"
    by simp_all
qed

theorem load_index_consistent_witness:
  "snd (load_from_file plain_decimal init_db sample_data) = None \<and>
   index_consistent sample_db \<and> ids_in_range sample_db \<and> length (apartments sample_db) = 4 \<and>
   snd (add_apartment sample_db record_2) = None \<and>
   index_consistent (fst (add_apartment sample_db record_2)) \<and>
   apartments (fst (add_apartment sample_db record_2)) =
     [record_0, record_1, record_2, record_3, record_2]"
proof -
  have n: "length sample_data = 4" by (simp add: sample_data_def)
  have s: "snd (add_apartment sample_db record_2) = None" by code_simp
  note t = load_index_consistent [of plain_decimal init_db sample_data sample_db record_2]
  from t sample_loaded n
  have c: "index_consistent sample_db \<and> ids_in_range sample_db \<and> length (apartments sample_db) = 4"
    by (simp add: sample_db_def)
  with t s
  have "index_consistent (fst (add_apartment sample_db record_2)) \<and>
        apartments (fst (add_apartment sample_db record_2)) = apartments sample_db @ [record_2]"
    by blast
  with c s sample_loaded show ?thesis by (simp add: sample_apartments)
qed

section \<open>Combining two criteria\<close>

text \<open>
  C4. In a loaded engine, for two criteria on two of the five attributes (two entries of
  one criteria dictionary, hence on different attributes), the search under \<open>AND\<close> ends
  with the intersection of the identifier sets of the two single-criterion searches, and
  returns the records at these identifiers in ascending order of identifier.
\<close>

theorem search_and_intersection:
  assumes "has_names db0" and "snd (load_from_file P db0 data) = None"
    and "f1 \<in> set attribute_names" and "f2 \<in> set attribute_names" and "f1 \<noteq> f2"
  shows "search_indices (fst (load_from_file P db0 data)) [(f1, v1), (f2, v2)] ''AND'' =
           search_indices (fst (load_from_file P db0 data)) [(f1, v1)] ''AND'' \<inter>
           search_indices (fst (load_from_file P db0 data)) [(f2, v2)] ''AND'' \<and>
         search (fst (load_from_file P db0 data)) [(f1, v1), (f2, v2)] ''AND'' =
           Inr (records_at (fst (load_from_file P db0 data))
                  (search_indices (fst (load_from_file P db0 data)) [(f1, v1)] ''AND'' \<inter>
                   search_indices (fst (load_from_file P db0 data)) [(f2, v2)] ''AND'')) \<and>
         search (fst (load_from_file P db0 data)) [(f1, v1)] ''AND'' =
           Inr (records_at (fst (load_from_file P db0 data))
                  (search_indices (fst (load_from_file P db0 data)) [(f1, v1)] ''AND'')) \<and>
         search (fst (load_from_file P db0 data)) [(f2, v2)] ''AND'' =
           Inr (records_at (fst (load_from_file P db0 data))
                  (search_indices (fst (load_from_file P db0 data)) [(f2, v2)] ''AND''))"
proof -
  let ?db = "fst (load_from_file P db0 data)"
  have n: "has_names ?db" by (rule has_names_load [OF assms(1)])
  have i1: "indices ?db f1 \<noteq> None" and i2: "indices ?db f2 \<noteq> None"
    using has_names_lookup [OF n] assms(3,4) by simp_all
  have r: "ids_in_range ?db" by (rule loaded_invariants(1) [OF assms(2)])
  have "search_indices ?db [(f1, v1), (f2, v2)] ''AND'' =
          search_indices ?db [(f1, v1)] ''AND'' \<inter> search_indices ?db [(f2, v2)] ''AND''"
    by (simp add: search_indices_pair [OF i1 i2] search_indices_single [OF i1]
        search_indices_single [OF i2])
  then show ?thesis
    using search_records_at [OF r] by simp
qed

theorem search_and_intersection_witness:
  "has_names init_db \<and> snd (load_from_file plain_decimal init_db sample_data) = None \<and>
   ''balconies'' \<in> set attribute_names \<and> ''metro'' \<in> set attribute_names \<and> ''balconies'' \<noteq> ''metro'' \<and>
   search_indices sample_db [(''balconies'', KInt 2), (''metro'', KStr ''Politekhnicheskaya'')] ''AND'' =
     search_indices sample_db [(''balconies'', KInt 2)] ''AND'' \<inter>
     search_indices sample_db [(''metro'', KStr ''Politekhnicheskaya'')] ''AND'' \<and>
   search sample_db [(''balconies'', KInt 2), (''metro'', KStr ''Politekhnicheskaya'')] ''AND'' =
     Inr (records_at sample_db
            (search_indices sample_db [(''balconies'', KInt 2)] ''AND'' \<inter>
             search_indices sample_db [(''metro'', KStr ''Politekhnicheskaya'')] ''AND''))"
proof -
  have a: "''balconies'' \<in> set attribute_names" "''metro'' \<in> set attribute_names"
    "''balconies'' \<noteq> ''metro''"
    by (simp_all add: attribute_names_def)
  from search_and_intersection [OF has_names_init sample_loaded a,
      of "KInt 2" "KStr ''Politekhnicheskaya''"]
  show ?thesis using has_names_init sample_loaded a by (simp add: sample_db_def)
qed

text \<open>
  C5. Under \<open>OR\<close> the same two-criterion search ends with the union of the identifier sets
  of the two single-criterion searches, and returns the records at these identifiers in
  ascending order of identifier.
\<close>

theorem search_or_union:
  assumes "has_names db0" and "snd (load_from_file P db0 data) = None"
    and "f1 \<in> set attribute_names" and "f2 \<in> set attribute_names" and "f1 \<noteq> f2"
  shows "search_indices (fst (load_from_file P db0 data)) [(f1, v1), (f2, v2)] ''OR'' =
           search_indices (fst (load_from_file P db0 data)) [(f1, v1)] ''AND'' \<union>
           search_indices (fst (load_from_file P db0 data)) [(f2, v2)] ''AND'' \<and>
         search (fst (load_from_file P db0 data)) [(f1, v1), (f2, v2)] ''OR'' =
           Inr (records_at (fst (load_from_file P db0 data))
                  (search_indices (fst (load_from_file P db0 data)) [(f1, v1)] ''AND'' \<union>
                   search_indices (fst (load_from_file P db0 data)) [(f2, v2)] ''AND'')) \<and>
         search (fst (load_from_file P db0 data)) [(f1, v1)] ''AND'' =
           Inr (records_at (fst (load_from_file P db0 data))
                  (search_indices (fst (load_from_file P db0 data)) [(f1, v1)] ''AND'')) \<and>
         search (fst (load_from_file P db0 data)) [(f2, v2)] ''AND'' =
           Inr (records_at (fst (load_from_file P db0 data))
                  (search_indices (fst (load_from_file P db0 data)) [(f2, v2)] ''AND''))"
proof -
  let ?db = "fst (load_from_file P db0 data)"
  have n: "has_names ?db" by (rule has_names_load [OF assms(1)])
  have i1: "indices ?db f1 \<noteq> None" and i2: "indices ?db f2 \<noteq> None"
    using has_names_lookup [OF n] assms(3,4) by simp_all
  have r: "ids_in_range ?db" by (rule loaded_invariants(1) [OF assms(2)])
  have "search_indices ?db [(f1, v1), (f2, v2)] ''OR'' =
          search_indices ?db [(f1, v1)] ''AND'' \<union> search_indices ?db [(f2, v2)] ''AND''"
    by (simp add: search_indices_pair [OF i1 i2] search_indices_single [OF i1]
        search_indices_single [OF i2])
  then show ?thesis
    using search_records_at [OF r] by simp
qed

theorem search_or_union_witness:
  "has_names init_db \<and> snd (load_from_file plain_decimal init_db sample_data) = None \<and>
   ''total_area'' \<in> set attribute_names \<and> ''balconies'' \<in> set attribute_names \<and>
   ''total_area'' \<noteq> ''balconies'' \<and>
   search_indices sample_db [(''total_area'', KInt 75), (''balconies'', KInt 2)] ''OR'' =
     search_indices sample_db [(''total_area'', KInt 75)] ''AND'' \<union>
     search_indices sample_db [(''balconies'', KInt 2)] ''AND'' \<and>
   search sample_db [(''total_area'', KInt 75), (''balconies'', KInt 2)] ''OR'' =
     Inr (records_at sample_db
            (search_indices sample_db [(''total_area'', KInt 75)] ''AND'' \<union>
             search_indices sample_db [(''balconies'', KInt 2)] ''AND''))"
proof -
  have a: "''total_area'' \<in> set attribute_names" "''balconies'' \<in> set attribute_names"
    "''total_area'' \<noteq> ''balconies''"
    by (simp_all add: attribute_names_def)
  from search_or_union [OF has_names_init sample_loaded a, of "KInt 75" "KInt 2"]
  show ?thesis using has_names_init sample_loaded a by (simp add: sample_db_def)
qed

section \<open>Order of the result\<close>

text \<open>
  C6. In a loaded engine a search returns, for every criteria and operator, the records
  at the identifiers it ends with, taken in strictly ascending order of identifier; this
  is the order in which the records were inserted: the result is the store restricted to
  those positions, a subsequence of the store.
\<close>

theorem search_ascending_order:
  assumes "snd (load_from_file P db0 data) = None"
  shows "search (fst (load_from_file P db0 data)) criteria operator =
           Inr (map ((!) (apartments (fst (load_from_file P db0 data))))
                  (sorted_list_of_set (search_indices (fst (load_from_file P db0 data)) criteria operator))) \<and>
         sorted_wrt (<) (sorted_list_of_set (search_indices (fst (load_from_file P db0 data)) criteria operator)) \<and>
         set (sorted_list_of_set (search_indices (fst (load_from_file P db0 data)) criteria operator))
           \<subseteq> {..<length (apartments (fst (load_from_file P db0 data)))} \<and>
         search (fst (load_from_file P db0 data)) criteria operator =
           Inr (nths (apartments (fst (load_from_file P db0 data)))
                  (search_indices (fst (load_from_file P db0 data)) criteria operator)) \<and>
         (\<exists>res. search (fst (load_from_file P db0 data)) criteria operator = Inr res \<and>
                subseq res (apartments (fst (load_from_file P db0 data))))"
proof -
  let ?db = "fst (load_from_file P db0 data)"
  let ?A = "search_indices ?db criteria operator"
  have r: "ids_in_range ?db" by (rule loaded_invariants(1) [OF assms])
  have sub: "?A \<subseteq> {..<length (apartments ?db)}" by (rule search_indices_range [OF r])
  then have fin: "finite ?A" by (rule finite_subset) simp
  have s: "search ?db criteria operator = Inr (map ((!) (apartments ?db)) (sorted_list_of_set ?A))"
    by (rule search_map_nth [OF r])
  have n: "search ?db criteria operator = Inr (nths (apartments ?db) ?A)"
    unfolding s by (simp add: map_nth_sorted_list_of_set [OF sub])
  have "subseq (nths (apartments ?db) ?A) (apartments ?db)"
    unfolding subseq_conv_nths by blast
  with n have "\<exists>res. search ?db criteria operator = Inr res \<and> subseq res (apartments ?db)"
    by blast
  with s n fin sub show ?thesis by simp
qed

theorem search_ascending_order_witness:
  "snd (load_from_file plain_decimal init_db sample_data) = None \<and>
   search sample_db [(''total_area'', KInt 75), (''balconies'', KInt 2)] ''OR'' =
     Inr (nths (apartments sample_db)
            (search_indices sample_db [(''total_area'', KInt 75), (''balconies'', KInt 2)] ''OR'')) \<and>
   sorted_wrt (<) (sorted_list_of_set
     (search_indices sample_db [(''total_area'', KInt 75), (''balconies'', KInt 2)] ''OR''))"
  unfolding sample_db_def
  using search_ascending_order [OF sample_loaded,
      of "[(''total_area'', KInt 75), (''balconies'', KInt 2)]" "''OR''"] sample_loaded
  by blast

section \<open>Empty criteria\<close>

text \<open>
  C7. Whatever the state of the engine and whatever the operator, a search with no
  criterion returns the empty list.
\<close>

theorem search_empty_criteria:
  "search db [] ''AND'' = Inr [] \<and> search db [] ''OR'' = Inr [] \<and> search db [] operator = Inr []"
  by (simp add: search_def)

section \<open>Loading twice\<close>

text \<open>
  C8. Loading the same input a second time gives the same engine and the same outcome
  as loading it once, from any engine and for any input; so every search returns the same
  result after one load and after two.
\<close>

theorem reload_same_results:
  "load_from_file P (fst (load_from_file P db data)) data = load_from_file P db data \<and>
   search (fst (load_from_file P (fst (load_from_file P db data)) data)) criteria operator =
     search (fst (load_from_file P db data)) criteria operator"
  by (simp add: load_twice)

section \<open>Identifiers stay in range\<close>

text \<open>
  C9. After a load that returns, every identifier in every bucket is smaller than the
  number of stored records, and no search raises: every search returns the records at
  the identifiers it ends with, so the out-of-range branch of the look-up is never taken.
\<close>

theorem search_never_out_of_range:
  assumes "snd (load_from_file P db0 data) = None"
  shows "ids_in_range (fst (load_from_file P db0 data)) \<and>
         (\<forall>a k. \<forall>i\<in>bucket (fst (load_from_file P db0 data)) a k.
            i < length (apartments (fst (load_from_file P db0 data)))) \<and>
         (\<forall>criteria operator.
            search (fst (load_from_file P db0 data)) criteria operator =
              Inr (records_at (fst (load_from_file P db0 data))
                     (search_indices (fst (load_from_file P db0 data)) criteria operator)) \<and>
            search (fst (load_from_file P db0 data)) criteria operator \<noteq> Inl IndexError)"
proof -
  let ?db = "fst (load_from_file P db0 data)"
  have r: "ids_in_range ?db" by (rule loaded_invariants(1) [OF assms])
  then have "\<forall>a k. \<forall>i\<in>bucket ?db a k. i < length (apartments ?db)"
    by (auto simp: ids_in_range_def)
  with r show ?thesis using search_records_at [OF r] by simp
qed

theorem search_never_out_of_range_witness:
  "snd (load_from_file plain_decimal init_db sample_data) = None \<and>
   ids_in_range sample_db \<and>
   search sample_db [(''metro'', KStr ''Akademicheskaya'')] ''AND'' \<noteq> Inl IndexError \<and>
   search sample_db [(''metro'', KStr ''Akademicheskaya'')] ''AND'' = Inr [record_0, record_2]"
  using search_never_out_of_range [OF sample_loaded] sample_loaded sample_search_metro
  by (simp add: sample_db_def)

section \<open>Search is read-only\<close>

text \<open>
  C10. With the sets as objects, a search leaves the record list, the five indices and
  every set object that existed before the call as they were, for every criteria and every
  operator string: the running result is a new object, made by \<open>copy\<close> from the bucket of
  the first criterion, and \<open>&=\<close> and \<open>|=\<close> only ever change that new object. The objects a
  search creates are appended after the existing ones. When every bucket address refers
  to an existing object, the database the state stands for is unchanged, and the result is
  the one of \<open>search\<close> on that database.
\<close>

theorem search_read_only:
  "h_apartments (snd (search_h hdb criteria operator)) = h_apartments hdb \<and>
   h_indices (snd (search_h hdb criteria operator)) = h_indices hdb \<and>
   take (length (h_sets hdb)) (h_sets (snd (search_h hdb criteria operator))) = h_sets hdb \<and>
   (heap_valid hdb \<longrightarrow>
      abs_db (snd (search_h hdb criteria operator)) = abs_db hdb \<and>
      fst (search_h hdb criteria operator) = search (abs_db hdb) criteria operator)"
  using search_h_frame [of hdb criteria operator] abs_db_frame [of hdb criteria operator]
    search_h_refines [of hdb criteria operator]
  by simp

theorem search_read_only_witness:
  "heap_valid sample_heap \<and>
   take 16 (h_sets (snd (search_h sample_heap
      [(''balconies'', KInt 2), (''metro'', KStr ''Politekhnicheskaya'')] ''AND''))) = h_sets sample_heap \<and>
   abs_db (snd (search_h sample_heap
      [(''balconies'', KInt 2), (''metro'', KStr ''Politekhnicheskaya'')] ''AND'')) = abs_db sample_heap \<and>
   fst (search_h sample_heap
      [(''balconies'', KInt 2), (''metro'', KStr ''Politekhnicheskaya'')] ''AND'') = Inr [record_3]"
proof -
  have l: "length (h_sets sample_heap) = 16" by (simp add: sample_heap_def)
  have f: "fst (search_h sample_heap
      [(''balconies'', KInt 2), (''metro'', KStr ''Politekhnicheskaya'')] ''AND'') = Inr [record_3]"
    by code_simp
  from search_read_only [of sample_heap
      "[(''balconies'', KInt 2), (''metro'', KStr ''Politekhnicheskaya'')]" "''AND''"]
  show ?thesis using heap_valid_sample l f by simp
qed

end
